theory Spec2Isabelle
  imports Main
begin

section \<open>Python values and errors\<close>

text \<open>
  The three modules of \<^verbatim>\<open>src/hw5\<close> work on Python's unbounded integers, modelled as
  \<^typ>\<open>int\<close>. HOL's \<open>mod\<close> on \<^typ>\<open>int\<close> is the floored remainder, as Python's \<^verbatim>\<open>%\<close>;
  the difference is the zero divisor, where Python raises. An exception is a value
  of \<open>py_error\<close>, and a computation that may raise returns \<open>py_error + 'a\<close>.
\<close>

datatype py_error = ZeroDivisionError | IndexError

definition py_mod :: "int \<Rightarrow> int \<Rightarrow> py_error + int" where
  "py_mod a b = (if b = 0 then Inl ZeroDivisionError else Inr (a mod b))"

text \<open>
  \<^verbatim>\<open>xs[i]\<close> on a Python list of length \<open>n\<close>: a negative index counts from the end, and
  an index outside \<open>-n .. n-1\<close> raises. \<open>py_index n i\<close> is the position read or written.
\<close>

definition py_index :: "nat \<Rightarrow> int \<Rightarrow> py_error + nat" where
  "py_index n i =
     (let j = (if i < 0 then int n + i else i)
      in if 0 \<le> j \<and> j < int n then Inr (nat j) else Inl IndexError)"

section \<open>The oracle\<close>

text \<open>
  \<^verbatim>\<open>prf.PRF\<close> is an external collaborator: an evaluation \<^verbatim>\<open>calc\<close> and the published
  sizes \<^verbatim>\<open>domain\<close> and \<^verbatim>\<open>rang\<close>. Every function below takes it as a parameter.
\<close>

record PRF =
  calc :: "int \<Rightarrow> int"
  domain :: int
  rang :: int

section \<open>nivasch.py\<close>

text \<open>
  The state of the \<^verbatim>\<open>while True\<close> loop of \<^verbatim>\<open>find_cycle\<close>: the list of stacks (each a
  Python list, bottom first, top last) and the variable \<^verbatim>\<open>next\<close>.
\<close>

type_synonym nivasch_state = "int list list \<times> int"

datatype step_result = Done "py_error + int" | Next nivasch_state

text \<open>
  The inner loop
  \<^verbatim>\<open>while stacks[next % k][-1] > next: stacks[next % k].pop(); if len(...) == 0: break\<close>
  on one stack. Reading \<^verbatim>\<open>[-1]\<close> of an empty list raises.
\<close>

function pop_loop :: "int list \<Rightarrow> int \<Rightarrow> py_error + int list" where
  "pop_loop s nxt =
     (if s = [] then Inl IndexError
      else if last s > nxt then
        (let s' = butlast s in if length s' = 0 then Inr s' else pop_loop s' nxt)
      else Inr s)"
  by pat_completeness auto
termination
  by (relation "measure (\<lambda>(s, nxt). length s)") auto

declare pop_loop.simps [simp del]

text \<open>One iteration of the \<^verbatim>\<open>while True\<close> loop, \<open>f\<close> being \<^verbatim>\<open>f.calc\<close>.\<close>

definition nivasch_step :: "(int \<Rightarrow> int) \<Rightarrow> int \<Rightarrow> nivasch_state \<Rightarrow> step_result" where
  "nivasch_step f k st =
     (let stacks = fst st; nxt = f (snd st) in
      case py_mod nxt k of
        Inl e \<Rightarrow> Done (Inl e)
      | Inr idx \<Rightarrow>
         (case py_index (length stacks) idx of
            Inl e \<Rightarrow> Done (Inl e)
          | Inr j \<Rightarrow>
             (let s = stacks ! j in
              if nxt \<in> set s then Done (Inr nxt)
              else if length s = 0 then Next (stacks[j := s @ [nxt]], nxt)
              else (case pop_loop s nxt of
                      Inl e \<Rightarrow> Done (Inl e)
                    | Inr s' \<Rightarrow> Next (stacks[j := s' @ [nxt]], nxt)))))"

partial_function (option) nivasch_loop ::
  "(int \<Rightarrow> int) \<Rightarrow> int \<Rightarrow> nivasch_state \<Rightarrow> (py_error + int) option" where
  "nivasch_loop f k st =
     (case nivasch_step f k st of
        Done r \<Rightarrow> Some r
      | Next st' \<Rightarrow> nivasch_loop f k st')"

text \<open>
  \<^verbatim>\<open>find_cycle(f, k, start)\<close>: \<open>None\<close> is a run that never returns, \<open>Some (Inl e)\<close> a
  raised exception, \<open>Some (Inr x)\<close> the returned point. \<^verbatim>\<open>range(k)\<close> is empty for
  \<open>k \<le> 0\<close>.
\<close>

definition init_stacks :: "int \<Rightarrow> int list list" where
  "init_stacks k = replicate (nat k) []"

definition find_cycle_init :: "int \<Rightarrow> int \<Rightarrow> py_error + nivasch_state" where
  "find_cycle_init k start =
     (let stacks = init_stacks k in
      case py_mod start k of
        Inl e \<Rightarrow> Inl e
      | Inr idx \<Rightarrow>
         (case py_index (length stacks) idx of
            Inl e \<Rightarrow> Inl e
          | Inr j \<Rightarrow> Inr (stacks[j := stacks ! j @ [start]], start)))"

definition find_cycle :: "(int \<Rightarrow> int) \<Rightarrow> int \<Rightarrow> int \<Rightarrow> (py_error + int) option" where
  "find_cycle f k start =
     (case find_cycle_init k start of
        Inl e \<Rightarrow> Some (Inl e)
      | Inr st \<Rightarrow> nivasch_loop f k st)"

text \<open>
  The first \<open>n\<close> iterations of the loop: \<open>Next st\<close> when the loop is still running
  after \<open>n\<close> iterations, in state \<open>st\<close>, and \<open>Done r\<close> when it has left with \<open>r\<close>.
\<close>

fun nivasch_iter :: "(int \<Rightarrow> int) \<Rightarrow> int \<Rightarrow> nat \<Rightarrow> nivasch_state \<Rightarrow> step_result" where
  "nivasch_iter f k 0 st = Next st"
| "nivasch_iter f k (Suc n) st =
     (case nivasch_step f k st of
        Done r \<Rightarrow> Done r
      | Next st' \<Rightarrow> nivasch_iter f k n st')"

text \<open>
  The facts the proofs below carry along a run started at \<open>start\<close>: after \<open>m\<close>
  iterations \<^verbatim>\<open>next\<close> is the \<open>m\<close>-th iterate, there are \<open>k\<close> stacks, every stack is
  strictly increasing from bottom to top, and stack \<open>j\<close> holds visited points of
  residue \<open>j\<close> only. \<open>cur_in\<close> says that \<^verbatim>\<open>next\<close> is on its own stack.
\<close>

definition nivasch_inv :: "(int \<Rightarrow> int) \<Rightarrow> int \<Rightarrow> int \<Rightarrow> nat \<Rightarrow> nivasch_state \<Rightarrow> bool" where
  "nivasch_inv f k start m st \<longleftrightarrow>
     snd st = (f ^^ m) start \<and> length (fst st) = nat k \<and>
     (\<forall>j < length (fst st). sorted_wrt (<) (fst st ! j) \<and>
        (\<forall>p \<in> set (fst st ! j). p mod k = int j \<and> (\<exists>i \<le> m. p = (f ^^ i) start)))"


definition cur_in :: "int \<Rightarrow> nivasch_state \<Rightarrow> bool" where
  "cur_in k st \<longleftrightarrow> snd st \<in> set (fst st ! nat (snd st mod k))"


text \<open>A two-point self-map used as a concrete input: \<open>3 \<mapsto> 7 \<mapsto> 3\<close>.\<close>

definition ex_map :: "int \<Rightarrow> int" where
  "ex_map x = (if x = 3 then 7 else 3)"

section \<open>floyd.py\<close>

text \<open>
  The first loop of \<^verbatim>\<open>find_collision\<close>, tortoise and hare:
  \<^verbatim>\<open>while p1 != p2: count += 1; p1 = f.calc(p1); p2 = f.calc(f.calc(p2))\<close>.
  It returns the two pointers and the round count, and \<open>None\<close> when it runs forever.
\<close>

partial_function (option) floyd_meet ::
  "(int \<Rightarrow> int) \<Rightarrow> int \<Rightarrow> int \<Rightarrow> nat \<Rightarrow> (int \<times> int \<times> nat) option" where
  "floyd_meet f p1 p2 count =
     (if p1 \<noteq> p2 then floyd_meet f (f p1) (f (f p2)) (count + 1)
      else Some (p1, p2, count))"

text \<open>
  The check \<^verbatim>\<open>for _ in range(count * 2): p1 = f.calc(p1); if p1 == start: return ...\<close>;
  \<open>True\<close> is the early return, \<open>n\<close> the number of rounds left.
\<close>

fun started_at_cycle :: "(int \<Rightarrow> int) \<Rightarrow> int \<Rightarrow> nat \<Rightarrow> int \<Rightarrow> bool" where
  "started_at_cycle f start 0 p1 = False"
| "started_at_cycle f start (Suc n) p1 =
     (let p1' = f p1 in if p1' = start then True else started_at_cycle f start n p1')"

text \<open>
  The last loop:
  \<^verbatim>\<open>while f.calc(p1) != f.calc(p2): p1 = f.calc(p1); p2 = f.calc(p2)\<close>.
\<close>

partial_function (option) floyd_walk ::
  "(int \<Rightarrow> int) \<Rightarrow> int \<Rightarrow> int \<Rightarrow> (int \<times> int) option" where
  "floyd_walk f p1 p2 =
     (if f p1 \<noteq> f p2 then floyd_walk f (f p1) (f p2) else Some (p1, p2))"

text \<open>\<^verbatim>\<open>find_collision(f, start)\<close>; \<open>None\<close> is a run that never returns.\<close>

definition find_collision :: "(int \<Rightarrow> int) \<Rightarrow> int \<Rightarrow> (int \<times> int) option" where
  "find_collision f start =
     (if f start = start then Some (start, start)
      else
        (case floyd_meet f (f start) (f (f start)) 0 of
           None \<Rightarrow> None
         | Some (p1, p2, count) \<Rightarrow>
             if started_at_cycle f start (count * 2) p1 then Some (start, start)
             else floyd_walk f start p2))"

text \<open>A self-map with a tail, used as a concrete input: \<open>0 \<mapsto> 1 \<mapsto> 2 \<mapsto> 1\<close>.\<close>

definition ex_tail :: "int \<Rightarrow> int" where
  "ex_tail x = (if x = 0 then 1 else if x = 1 then 2 else 1)"

section \<open>hellman\_tables.py\<close>

text \<open>
  \<^verbatim>\<open>ModifiedPRF\<close> holds the oracle in its field \<^verbatim>\<open>self.f\<close>. \<^verbatim>\<open>__init__\<close> stores it and
  has no \<^verbatim>\<open>raise\<close>.
\<close>

datatype modified_prf = ModifiedPRF (self_f: PRF)

definition ModifiedPRF_init :: "PRF \<Rightarrow> py_error + modified_prf" where
  "ModifiedPRF_init orc = Inr (ModifiedPRF orc)"

definition ModifiedPRF_calc :: "modified_prf \<Rightarrow> int \<Rightarrow> py_error + int" where
  "ModifiedPRF_calc F x =
     (let dom_size = domain (self_f F); rang_size = rang (self_f F) in
      if dom_size < rang_size then
        (case py_mod x dom_size of
           Inl e \<Rightarrow> Inl e
         | Inr r \<Rightarrow> Inr (calc (self_f F) r))
      else if dom_size > rang_size then
        (case py_mod (x + 1) dom_size of
           Inl e \<Rightarrow> Inl e
         | Inr r \<Rightarrow> Inr (calc (self_f F) (x + r * rang_size)))
      else Inr (calc (self_f F) x))"

definition recover_x :: "modified_prf \<Rightarrow> int \<Rightarrow> py_error + int" where
  "recover_x F x =
     (let dom_size = domain (self_f F); rang_size = rang (self_f F) in
      if dom_size < rang_size then py_mod x dom_size
      else if dom_size > rang_size then
        (case py_mod (x + 1) dom_size of
           Inl e \<Rightarrow> Inl e
         | Inr r \<Rightarrow> Inr (x + r * rang_size))
      else Inr x)"

text \<open>
  A table is the \<^verbatim>\<open>defaultdict(list)\<close> that \<^verbatim>\<open>hellman_preprocess\<close> builds: a map from
  end points to lists of start points. Reading \<^verbatim>\<open>table[key]\<close> at an absent key
  stores the empty list under that key and returns it, so a read returns the new
  table too.
\<close>

type_synonym table = "int \<rightharpoonup> int list"

definition dd_get :: "table \<Rightarrow> int \<Rightarrow> int list \<times> table" where
  "dd_get tb key = (case tb key of None \<Rightarrow> ([], tb(key \<mapsto> [])) | Some l \<Rightarrow> (l, tb))"

text \<open>The perturbed step of table \<open>i\<close>: \<^verbatim>\<open>f_tag.calc((a + i) % f_tag.f.domain)\<close>.\<close>

definition chain_step :: "modified_prf \<Rightarrow> nat \<Rightarrow> int \<Rightarrow> py_error + int" where
  "chain_step F i a =
     (case py_mod (a + int i) (domain (self_f F)) of
        Inl e \<Rightarrow> Inl e
      | Inr x \<Rightarrow> ModifiedPRF_calc F x)"

text \<open>
  The innermost loop of \<^verbatim>\<open>hellman_online\<close>, \<open>n\<close> rounds left:
  \<^verbatim>\<open>for _ in range(t): if f_tag.calc((a + i) % D) == y: return (a + i) % D;
    a = f_tag.calc((a + i) % D)\<close>.
  \<open>Inr (Some x)\<close> is the \<^verbatim>\<open>return\<close>, \<open>Inr None\<close> the end of the loop.
\<close>

fun replay :: "modified_prf \<Rightarrow> nat \<Rightarrow> int \<Rightarrow> nat \<Rightarrow> int \<Rightarrow> py_error + int option" where
  "replay F i y 0 a = Inr None"
| "replay F i y (Suc n) a =
     (case chain_step F i a of
        Inl e \<Rightarrow> Inl e
      | Inr v \<Rightarrow>
          if v = y then
            (case py_mod (a + int i) (domain (self_f F)) of
               Inl e \<Rightarrow> Inl e
             | Inr x \<Rightarrow> Inr (Some x))
          else replay F i y n v)"

text \<open>\<^verbatim>\<open>for a in tables[i][curr]: ...\<close>, each start replayed for \<open>t\<close> rounds.\<close>

fun try_starts :: "modified_prf \<Rightarrow> nat \<Rightarrow> int \<Rightarrow> nat \<Rightarrow> int list \<Rightarrow> py_error + int option" where
  "try_starts F i y t [] = Inr None"
| "try_starts F i y t (a # as) =
     (case replay F i y t a of
        Inl e \<Rightarrow> Inl e
      | Inr (Some x) \<Rightarrow> Inr (Some x)
      | Inr None \<Rightarrow> try_starts F i y t as)"

text \<open>
  The walk from \<open>y\<close> in table \<open>i\<close>, \<open>n\<close> rounds left:
  \<^verbatim>\<open>for _ in range(t): if len(tables[i][curr]) > 0: ...; curr = f_tag.calc((curr + i) % D)\<close>.
  The table comes back with the result, also when an exception leaves the loop.
\<close>

fun walk ::
  "modified_prf \<Rightarrow> nat \<Rightarrow> int \<Rightarrow> nat \<Rightarrow> table \<Rightarrow> nat \<Rightarrow> int \<Rightarrow> (py_error + int option) \<times> table"
  where
  "walk F i y t tb 0 cur = (Inr None, tb)"
| "walk F i y t tb (Suc n) cur =
     (let (starts, tb') = dd_get tb cur in
      case (if length starts > 0 then try_starts F i y t starts else Inr None) of
        Inl e \<Rightarrow> (Inl e, tb')
      | Inr (Some x) \<Rightarrow> (Inr (Some x), tb')
      | Inr None \<Rightarrow>
          (case chain_step F i cur of
             Inl e \<Rightarrow> (Inl e, tb')
           | Inr cur' \<Rightarrow> walk F i y t tb' n cur'))"

text \<open>
  The keys at which the walk evaluates \<^verbatim>\<open>tables[i][curr]\<close>, in order: the same rounds
  as \<open>walk\<close>, ending where \<open>walk\<close> returns or raises.
\<close>

fun walk_lookups ::
  "modified_prf \<Rightarrow> nat \<Rightarrow> int \<Rightarrow> nat \<Rightarrow> table \<Rightarrow> nat \<Rightarrow> int \<Rightarrow> int list" where
  "walk_lookups F i y t tb 0 cur = []"
| "walk_lookups F i y t tb (Suc n) cur =
     cur #
     (let (starts, tb') = dd_get tb cur in
      case (if length starts > 0 then try_starts F i y t starts else Inr None) of
        Inl e \<Rightarrow> []
      | Inr (Some x) \<Rightarrow> []
      | Inr None \<Rightarrow>
          (case chain_step F i cur of
             Inl e \<Rightarrow> []
           | Inr cur' \<Rightarrow> walk_lookups F i y t tb' n cur'))"

text \<open>\<^verbatim>\<open>for i in range(len(tables)): ...\<close> from index \<open>i\<close> on, and the final \<^verbatim>\<open>return None\<close>.\<close>

function online_loop ::
  "modified_prf \<Rightarrow> nat \<Rightarrow> int \<Rightarrow> nat \<Rightarrow> table list \<Rightarrow> (py_error + int option) \<times> table list"
  where
  "online_loop F t y i tables =
     (if i < length tables then
        (let (r, tb') = walk F i y t (tables ! i) t y;
             tables' = tables[i := tb']
         in case r of
              Inr None \<Rightarrow> online_loop F t y (Suc i) tables'
            | _ \<Rightarrow> (r, tables'))
      else (Inr None, tables))"
  by pat_completeness auto
termination
  by (relation "measure (\<lambda>(F, t, y, i, tables). length tables - i)") auto

declare online_loop.simps [simp del]

text \<open>
  \<^verbatim>\<open>hellman_online(tables, t, y, f_tag)\<close>: the returned value (\<open>Inr None\<close> is Python's
  \<^verbatim>\<open>None\<close>) and the tables as the call leaves them. \<^verbatim>\<open>range(t)\<close> is empty for \<open>t \<le> 0\<close>.
\<close>

definition hellman_online ::
  "table list \<Rightarrow> int \<Rightarrow> int \<Rightarrow> modified_prf \<Rightarrow> (py_error + int option) \<times> table list" where
  "hellman_online tables t y f_tag = online_loop f_tag (nat t) y 0 tables"

text \<open>
  What a table holds under a key, an absent key counting as the empty list, and
  two relations between a table before and after reads: no key is lost and no list
  of start points changes; every entry is as before, or is a key of \<open>K\<close> that was
  absent and now holds the empty list.
\<close>

definition start_points :: "table \<Rightarrow> int \<Rightarrow> int list" where
  "start_points tb key = (case tb key of None \<Rightarrow> [] | Some l \<Rightarrow> l)"

definition same_start_points :: "table \<Rightarrow> table \<Rightarrow> bool" where
  "same_start_points tb tb' \<longleftrightarrow>
     dom tb \<subseteq> dom tb' \<and> (\<forall>key. start_points tb' key = start_points tb key)"

definition only_adds :: "table \<Rightarrow> table \<Rightarrow> int set \<Rightarrow> bool" where
  "only_adds tb tb' K \<longleftrightarrow>
     (\<forall>key. tb' key = tb key \<or> (tb key = None \<and> tb' key = Some [] \<and> key \<in> K))"

text \<open>
  Concrete inputs: an oracle with equal sizes, an oracle whose sizes break
  \<open>domain \<le> range\<^sup>2\<close>, an oracle that publishes the domain size zero, and a table
  with the chain \<open>3 \<mapsto> 7\<close> of length one.
\<close>

definition ex_prf :: PRF where
  "ex_prf = \<lparr>calc = ex_map, domain = 10, rang = 10\<rparr>"

definition ex_bad_prf :: PRF where
  "ex_bad_prf = \<lparr>calc = ex_map, domain = 5, rang = 2\<rparr>"

definition ex_table :: table where
  "ex_table = [7 \<mapsto> [3]]"

definition ex_zero_prf :: PRF where
  "ex_zero_prf = \<lparr>calc = ex_map, domain = 0, rang = 10\<rparr>"

section \<open>Properties of find_cycle\<close>

lemma iter_Done_loop:
  "nivasch_iter f k n st = Done r \<Longrightarrow> nivasch_loop f k st = Some r"
proof (induction n arbitrary: st)
  case 0
  then show ?case by simp
next
  case (Suc n)
  show ?case
  proof (cases "nivasch_step f k st")
    case (Done r')
    with Suc.prems show ?thesis by (subst nivasch_loop.simps) simp
  next
    case (Next st')
    with Suc show ?thesis by (subst nivasch_loop.simps) simp
  qed
qed

lemma loop_Some_iter:
  assumes "nivasch_loop f k st = Some r"
  shows "\<exists>n. nivasch_iter f k n st = Done r"
proof (rule nivasch_loop.raw_induct
    [where P = "\<lambda>f k st r. \<exists>n. nivasch_iter f k n st = Done r", OF _ assms])
  fix loop :: "(int \<Rightarrow> int) \<Rightarrow> int \<Rightarrow> nivasch_state \<Rightarrow> (py_error + int) option"
  fix f k st r
  assume IH: "\<And>f k st r. loop f k st = Some r \<Longrightarrow> \<exists>n. nivasch_iter f k n st = Done r"
  assume eq: "(case nivasch_step f k st of Done r \<Rightarrow> Some r | Next st' \<Rightarrow> loop f k st') = Some r"
  show "\<exists>n. nivasch_iter f k n st = Done r"
  proof (cases "nivasch_step f k st")
    case (Done r')
    with eq have "nivasch_iter f k (Suc 0) st = Done r" by simp
    then show ?thesis by blast
  next
    case (Next st')
    with eq have "loop f k st' = Some r" by simp
    then obtain n where "nivasch_iter f k n st' = Done r" using IH by blast
    with Next have "nivasch_iter f k (Suc n) st = Done r" by simp
    then show ?thesis by blast
  qed
qed

lemma pop_loop_Nil: "pop_loop [] nxt = Inl IndexError"
  by (subst pop_loop.simps) simp

lemma pop_loop_snoc:
  "pop_loop (xs @ [x]) nxt =
     (if nxt < x then (if xs = [] then Inr [] else pop_loop xs nxt) else Inr (xs @ [x]))"
  by (subst pop_loop.simps) (simp add: Let_def)

lemma pop_loop_prefix: "pop_loop s nxt = Inr s' \<Longrightarrow> \<exists>r. s = s' @ r"
  by (induction s rule: rev_induct) (auto simp: pop_loop_Nil pop_loop_snoc split: if_splits)

lemma pop_loop_no_error: "s \<noteq> [] \<Longrightarrow> \<exists>s'. pop_loop s nxt = Inr s'"
  by (induction s rule: rev_induct) (auto simp: pop_loop_snoc)

lemma pop_loop_top: "pop_loop s nxt = Inr s' \<Longrightarrow> s' = [] \<or> last s' \<le> nxt"
  by (induction s rule: rev_induct) (auto simp: pop_loop_Nil pop_loop_snoc split: if_splits)

lemma pop_loop_keeps:
  "pop_loop s nxt = Inr s' \<Longrightarrow> x \<in> set s \<Longrightarrow> x \<le> nxt \<Longrightarrow> x \<in> set s'"
  by (induction s rule: rev_induct) (auto simp: pop_loop_Nil pop_loop_snoc split: if_splits)

lemma sorted_snoc_top:
  "sorted_wrt (<) s \<Longrightarrow> s = [] \<or> last s < (x::int) \<Longrightarrow> sorted_wrt (<) (s @ [x])"
proof (induction s rule: rev_induct)
  case Nil
  then show ?case by simp
next
  case (snoc y ys)
  then show ?case by (auto simp: sorted_wrt_append)
qed


lemma py_index_mod: "1 \<le> k \<Longrightarrow> py_index (nat k) (v mod k) = Inr (nat (v mod k))"
proof -
  assume "1 \<le> k"
  then have "0 \<le> v mod k" "v mod k < k" by simp_all
  then show ?thesis by (simp add: py_index_def Let_def)
qed

lemma py_mod_pos: "1 \<le> k \<Longrightarrow> py_mod v k = Inr (v mod k)"
  by (simp add: py_mod_def)

lemma nivasch_step_cases:
  assumes "1 \<le> k" "length stacks = nat k"
  shows "nivasch_step f k (stacks, x) =
     (let nxt = f x; j = nat (nxt mod k); s = stacks ! j in
        if nxt \<in> set s then Done (Inr nxt)
        else if s = [] then Next (stacks[j := [nxt]], nxt)
        else (case pop_loop s nxt of Inl e \<Rightarrow> Done (Inl e)
              | Inr s' \<Rightarrow> Next (stacks[j := s' @ [nxt]], nxt)))"
  using assms by (simp add: nivasch_step_def Let_def py_index_mod py_mod_pos)

lemma nivasch_step_no_error:
  assumes "1 \<le> k" "length (fst st) = nat k"
  shows "nivasch_step f k st \<noteq> Done (Inl e)"
proof (cases st)
  case (Pair stacks x)
  show ?thesis
  proof (cases "stacks ! nat (f x mod k) = []")
    case True
    with assms Pair show ?thesis by (simp add: nivasch_step_cases Let_def)
  next
    case False
    then obtain s' where "pop_loop (stacks ! nat (f x mod k)) (f x) = Inr s'"
      using pop_loop_no_error by blast
    with assms Pair show ?thesis by (simp add: nivasch_step_cases Let_def)
  qed
qed

lemma nivasch_step_Next:
  assumes "1 \<le> k" "length stacks = nat k" "nivasch_step f k (stacks, x) = Next st'"
  shows "\<exists>s'. st' = (stacks[nat (f x mod k) := s' @ [f x]], f x) \<and>
           f x \<notin> set (stacks ! nat (f x mod k)) \<and>
           (\<exists>r. stacks ! nat (f x mod k) = s' @ r) \<and>
           (s' = [] \<or> last s' \<le> f x) \<and>
           (\<forall>y \<in> set (stacks ! nat (f x mod k)). y \<le> f x \<longrightarrow> y \<in> set s')"
proof (cases "stacks ! nat (f x mod k) = []")
  case True
  with assms have "st' = (stacks[nat (f x mod k) := [] @ [f x]], f x)"
    by (simp add: nivasch_step_cases Let_def split: if_splits)
  with True show ?thesis by (intro exI[of _ "[]"]) simp
next
  case False
  with assms obtain s' where s': "pop_loop (stacks ! nat (f x mod k)) (f x) = Inr s'"
     and st': "st' = (stacks[nat (f x mod k) := s' @ [f x]], f x)"
     and notin: "f x \<notin> set (stacks ! nat (f x mod k))"
    by (auto simp add: nivasch_step_cases Let_def split: if_splits sum.splits)
  from s' pop_loop_prefix pop_loop_top pop_loop_keeps st' notin show ?thesis
    by (intro exI[of _ s']) blast
qed

lemma nivasch_step_Done:
  assumes "1 \<le> k" "length stacks = nat k" "nivasch_step f k (stacks, x) = Done (Inr y)"
  shows "y = f x \<and> f x \<in> set (stacks ! nat (f x mod k))"
proof (cases "stacks ! nat (f x mod k) = []")
  case True
  with assms show ?thesis by (simp add: nivasch_step_cases Let_def split: if_splits)
next
  case False
  with assms show ?thesis
    by (auto simp add: nivasch_step_cases Let_def split: if_splits sum.splits)
qed

lemma nivasch_inv_step:
  assumes k: "1 \<le> k" and inv: "nivasch_inv f k start m st"
    and step: "nivasch_step f k st = Next st'"
  shows "nivasch_inv f k start (Suc m) st'"
proof -
  obtain stacks x where st: "st = (stacks, x)" by (cases st)
  from inv st have x: "x = (f ^^ m) start" and len: "length stacks = nat k"
    and stk: "\<And>j. j < length stacks \<Longrightarrow> sorted_wrt (<) (stacks ! j) \<and>
        (\<forall>p \<in> set (stacks ! j). p mod k = int j \<and> (\<exists>i \<le> m. p = (f ^^ i) start))"
    by (simp_all add: nivasch_inv_def)
  define J where "J = nat (f x mod k)"
  from k have Jk: "J < nat k" and Jm: "int J = f x mod k" by (simp_all add: J_def nat_less_iff)
  from nivasch_step_Next[OF k len step[unfolded st]] obtain s' r where
    st': "st' = (stacks[J := s' @ [f x]], f x)" and notin: "f x \<notin> set (stacks ! J)"
    and pre: "stacks ! J = s' @ r" and top: "s' = [] \<or> last s' \<le> f x"
    unfolding J_def by blast
  from stk[of J] Jk len pre have sorted_s': "sorted_wrt (<) s'"
    and elems: "\<forall>p \<in> set s'. p mod k = int J \<and> (\<exists>i \<le> m. p = (f ^^ i) start)"
    by (auto simp: sorted_wrt_append)
  from notin pre top have "s' = [] \<or> last s' < f x"
    by (metis Un_iff last_in_set order_less_le set_append)
  with sorted_s' have sorted_new: "sorted_wrt (<) (s' @ [f x])" by (rule sorted_snoc_top)
  have fx: "f x = (f ^^ Suc m) start" by (simp add: x)
  have "\<And>j. j < length stacks \<Longrightarrow> sorted_wrt (<) (stacks[J := s' @ [f x]] ! j) \<and>
        (\<forall>p \<in> set (stacks[J := s' @ [f x]] ! j).
            p mod k = int j \<and> (\<exists>i \<le> Suc m. p = (f ^^ i) start))"
  proof -
    fix j assume j: "j < length stacks"
    show "sorted_wrt (<) (stacks[J := s' @ [f x]] ! j) \<and>
        (\<forall>p \<in> set (stacks[J := s' @ [f x]] ! j).
            p mod k = int j \<and> (\<exists>i \<le> Suc m. p = (f ^^ i) start))"
    proof (cases "j = J")
      case True
      have "\<forall>p \<in> set (s' @ [f x]). p mod k = int J \<and> (\<exists>i \<le> Suc m. p = (f ^^ i) start)"
      proof
        fix p assume "p \<in> set (s' @ [f x])"
        then consider "p \<in> set s'" | "p = f x" by auto
        then show "p mod k = int J \<and> (\<exists>i \<le> Suc m. p = (f ^^ i) start)"
        proof cases
          case 1
          with elems show ?thesis using le_Suc_eq by blast
        next
          case 2
          have "p = (f ^^ Suc m) start" using 2 fx by simp
          then have "\<exists>i \<le> Suc m. p = (f ^^ i) start" by blast
          with Jm 2 show ?thesis by simp
        qed
      qed
      with True j sorted_new show ?thesis by simp
    next
      case False
      with stk[OF j] show ?thesis using le_Suc_eq by (simp, blast)
    qed
  qed
  with st' fx len show ?thesis by (simp add: nivasch_inv_def)
qed


lemma find_cycle_init_pos:
  assumes "1 \<le> k"
  shows "find_cycle_init k start =
           Inr ((init_stacks k)[nat (start mod k) := [start]], start)"
proof -
  from assms have "nat (start mod k) < nat k" by (simp add: nat_less_iff)
  then show ?thesis using assms
    by (simp add: find_cycle_init_def Let_def py_mod_pos init_stacks_def py_index_mod)
qed

lemma find_cycle_init_zero: "find_cycle_init 0 start = Inl ZeroDivisionError"
  by (simp add: find_cycle_init_def Let_def py_mod_def)

lemma find_cycle_init_neg: "k < 0 \<Longrightarrow> find_cycle_init k start = Inl IndexError"
  by (simp add: find_cycle_init_def Let_def py_mod_def py_index_def init_stacks_def)

lemma find_cycle_init_inv:
  assumes k: "1 \<le> k" and init: "find_cycle_init k start = Inr st"
  shows "nivasch_inv f k start 0 st"
proof -
  define J where "J = nat (start mod k)"
  from k have Jk: "J < nat k" and Jm: "start mod k = int J"
    by (simp_all add: J_def nat_less_iff)
  define stacks where "stacks = (init_stacks k)[J := [start]]"
  from init k have st: "st = (stacks, start)"
    by (simp add: find_cycle_init_pos stacks_def J_def)
  have len: "length stacks = nat k" by (simp add: stacks_def init_stacks_def)
  have each: "sorted_wrt (<) (stacks ! j) \<and>
         (\<forall>p \<in> set (stacks ! j). p mod k = int j \<and> (\<exists>i \<le> 0. p = (f ^^ i) start))"
    if j: "j < nat k" for j
  proof (cases "j = J")
    case True
    with Jk have "stacks ! j = [start]" by (simp add: stacks_def init_stacks_def)
    with True Jm show ?thesis by simp
  next
    case False
    with j have "stacks ! j = []" by (simp add: stacks_def init_stacks_def)
    then show ?thesis by simp
  qed
  show ?thesis unfolding nivasch_inv_def st fst_conv snd_conv len
    using each by simp
qed

lemma nivasch_iter_inv:
  "1 \<le> k \<Longrightarrow> nivasch_inv f k start m st \<Longrightarrow> nivasch_iter f k n st = Next st' \<Longrightarrow>
   nivasch_inv f k start (m + n) st'"
proof (induction n arbitrary: m st)
  case 0
  then show ?case by simp
next
  case (Suc n)
  from Suc.prems(3) obtain st1 where s1: "nivasch_step f k st = Next st1"
    and it: "nivasch_iter f k n st1 = Next st'"
    by (auto split: step_result.splits)
  from nivasch_inv_step[OF Suc.prems(1,2) s1] have "nivasch_inv f k start (Suc m) st1" .
  from Suc.IH[OF Suc.prems(1) this it] show ?case by simp
qed

lemma nivasch_iter_no_error:
  "1 \<le> k \<Longrightarrow> nivasch_inv f k start m st \<Longrightarrow> nivasch_iter f k n st \<noteq> Done (Inl e)"
proof (induction n arbitrary: m st)
  case 0
  then show ?case by simp
next
  case (Suc n)
  from Suc.prems have len: "length (fst st) = nat k" by (simp add: nivasch_inv_def)
  show ?case
  proof (cases "nivasch_step f k st")
    case (Done r)
    with nivasch_step_no_error[OF Suc.prems(1) len, of f e] show ?thesis by simp
  next
    case (Next st1)
    from nivasch_inv_step[OF Suc.prems(1,2) Next] Suc.IH[OF Suc.prems(1)] Next
    show ?thesis by simp
  qed
qed

lemma nivasch_inv_Done:
  assumes k: "1 \<le> k" and inv: "nivasch_inv f k start m st"
    and step: "nivasch_step f k st = Done (Inr x)"
  shows "x = (f ^^ Suc m) start \<and> (\<exists>i \<le> m. x = (f ^^ i) start)"
proof -
  obtain stacks y where st: "st = (stacks, y)" by (cases st)
  from inv st have y: "y = (f ^^ m) start" and len: "length stacks = nat k"
    and stk: "\<And>j. j < length stacks \<Longrightarrow>
        (\<forall>p \<in> set (stacks ! j). (\<exists>i \<le> m. p = (f ^^ i) start))"
    by (simp_all add: nivasch_inv_def)
  from k have "nat (f y mod k) < nat k" by (simp add: nat_less_iff)
  with nivasch_step_Done[OF k len step[unfolded st]] stk[of "nat (f y mod k)"] len y
  show ?thesis by simp
qed

lemma nivasch_iter_Done:
  "1 \<le> k \<Longrightarrow> nivasch_inv f k start m st \<Longrightarrow> nivasch_iter f k n st = Done (Inr x) \<Longrightarrow>
   \<exists>i j. i < j \<and> (f ^^ i) start = x \<and> (f ^^ j) start = x"
proof (induction n arbitrary: m st)
  case 0
  then show ?case by simp
next
  case (Suc n)
  show ?case
  proof (cases "nivasch_step f k st")
    case (Done r)
    with Suc.prems(3) have "nivasch_step f k st = Done (Inr x)" by simp
    from nivasch_inv_Done[OF Suc.prems(1,2) this] obtain i where
      "i \<le> m" "x = (f ^^ i) start" "x = (f ^^ Suc m) start" by blast
    then have "i < Suc m \<and> (f ^^ i) start = x \<and> (f ^^ Suc m) start = x" by simp
    then show ?thesis by blast
  next
    case (Next st1)
    with Suc.prems(3) have it: "nivasch_iter f k n st1 = Done (Inr x)" by simp
    from Suc.IH[OF Suc.prems(1) nivasch_inv_step[OF Suc.prems(1,2) Next] it]
    show ?thesis .
  qed
qed

lemma find_cycle_pos_k:
  assumes "find_cycle f k start = Some (Inr x)"
  shows "1 \<le> k"
proof (rule ccontr)
  assume "\<not> 1 \<le> k"
  then consider "k = 0" | "k < 0" by linarith
  then show False
    using assms by cases (simp_all add: find_cycle_def find_cycle_init_zero find_cycle_init_neg)
qed

text \<open>
  Claim C2. Whenever \<^verbatim>\<open>find_cycle(f, k, start)\<close> returns a point \<open>x\<close>, there are two
  iteration indices \<open>i < j\<close> with \<open>f\<^sup>i(start) = f\<^sup>j(start) = x\<close>: the point lies on
  the cycle of the orbit of \<open>start\<close>. (A returned point forces \<open>k \<ge> 1\<close>; no finiteness
  is needed for this direction.)
\<close>

theorem find_cycle_on_cycle:
  assumes "find_cycle f k start = Some (Inr x)"
  shows "\<exists>i j. i < j \<and> (f ^^ i) start = x \<and> (f ^^ j) start = x"
proof -
  from assms have k: "1 \<le> k" by (rule find_cycle_pos_k)
  obtain st where init: "find_cycle_init k start = Inr st"
    using find_cycle_init_pos[OF k] by blast
  with assms have "nivasch_loop f k st = Some (Inr x)" by (simp add: find_cycle_def)
  then obtain n where "nivasch_iter f k n st = Done (Inr x)"
    using loop_Some_iter by blast
  from nivasch_iter_Done[OF k find_cycle_init_inv[OF k init] this] show ?thesis .
qed

text \<open>
  Claim C7, as the code has it. In every state the \<^verbatim>\<open>while True\<close> loop of
  \<^verbatim>\<open>find_cycle(f, k, start)\<close> reaches with \<open>k \<ge> 1\<close>, there are \<open>k\<close> stacks, each is
  strictly increasing in value from bottom to top, and every point on stack \<open>j\<close> is a
  previously visited point with \<open>point mod k = j\<close>. Inside the inner loop a stack is
  an initial segment of what it was before (\<open>pop_loop_prefix\<close>), so it is increasing
  there too.
\<close>

theorem find_cycle_stacks_increasing:
  assumes "1 \<le> k" "find_cycle_init k start = Inr st0"
    "nivasch_iter f k n st0 = Next (stacks, nxt)" "j < length stacks"
  shows "length stacks = nat k \<and> sorted_wrt (<) (stacks ! j) \<and>
         (\<forall>p \<in> set (stacks ! j). p mod k = int j \<and> (\<exists>i \<le> n. p = (f ^^ i) start))"
proof -
  from nivasch_iter_inv[OF assms(1) find_cycle_init_inv[OF assms(1,2)] assms(3)]
  have "nivasch_inv f k start n (stacks, nxt)" by simp
  with assms(4) show ?thesis by (simp add: nivasch_inv_def)
qed

text \<open>
  Claim C10. For \<open>k \<ge> 1\<close> no run of \<^verbatim>\<open>find_cycle\<close> raises: every index \<open>v mod k\<close> is in
  bounds and the inner loop never reads an empty stack. With \<open>k = 0\<close> the call fails
  at once with a division by zero, and with \<open>k < 0\<close> with an index error, the list of
  stacks being empty.
\<close>

theorem find_cycle_index_safe:
  "(1 \<le> k \<longrightarrow> find_cycle f k start \<noteq> Some (Inl e)) \<and>
   find_cycle f 0 start = Some (Inl ZeroDivisionError) \<and>
   (k < 0 \<longrightarrow> find_cycle f k start = Some (Inl IndexError))"
proof (intro conjI impI)
  assume k: "1 \<le> k"
  show "find_cycle f k start \<noteq> Some (Inl e)"
  proof
    assume a: "find_cycle f k start = Some (Inl e)"
    obtain st where init: "find_cycle_init k start = Inr st"
      using find_cycle_init_pos[OF k] by blast
    with a have "nivasch_loop f k st = Some (Inl e)" by (simp add: find_cycle_def)
    then obtain n where "nivasch_iter f k n st = Done (Inl e)"
      using loop_Some_iter by blast
    with nivasch_iter_no_error[OF k find_cycle_init_inv[OF k init]] show False by blast
  qed
next
  show "find_cycle f 0 start = Some (Inl ZeroDivisionError)"
    by (simp add: find_cycle_def find_cycle_init_zero)
next
  assume "k < 0"
  then show "find_cycle f k start = Some (Inl IndexError)"
    by (simp add: find_cycle_def find_cycle_init_neg)
qed


lemma nivasch_iter_add:
  "nivasch_iter f k (a + b) st =
     (case nivasch_iter f k a st of Done r \<Rightarrow> Done r | Next st' \<Rightarrow> nivasch_iter f k b st')"
  by (induction a arbitrary: st) (auto split: step_result.splits)

lemma nivasch_step_hit:
  assumes "1 \<le> k" "length stacks = nat k" "f x \<in> set (stacks ! nat (f x mod k))"
  shows "nivasch_step f k (stacks, x) = Done (Inr (f x))"
  using assms by (simp add: nivasch_step_cases Let_def)

lemma cur_in_init:
  assumes "1 \<le> k" "find_cycle_init k start = Inr st"
  shows "cur_in k st"
proof -
  from assms(1) have J: "nat (start mod k) < nat k" by (simp add: nat_less_iff)
  from assms have st: "st = ((init_stacks k)[nat (start mod k) := [start]], start)"
    by (simp add: find_cycle_init_pos)
  from J show ?thesis by (simp add: st cur_in_def init_stacks_def)
qed

lemma cur_in_step:
  assumes k: "1 \<le> k" and len: "length (fst st) = nat k"
    and step: "nivasch_step f k st = Next st'"
  shows "cur_in k st'"
proof -
  obtain stacks x where st: "st = (stacks, x)" by (cases st)
  from k have J: "nat (f x mod k) < nat k" by (simp add: nat_less_iff)
  from nivasch_step_Next[OF k len[unfolded st fst_conv] step[unfolded st]]
  obtain s' where "st' = (stacks[nat (f x mod k) := s' @ [f x]], f x)" by blast
  with J len st show ?thesis by (simp add: cur_in_def)
qed

lemma cur_in_iter:
  "1 \<le> k \<Longrightarrow> nivasch_inv f k start m st \<Longrightarrow> cur_in k st \<Longrightarrow>
   nivasch_iter f k n st = Next st' \<Longrightarrow> cur_in k st'"
proof (induction n arbitrary: m st)
  case 0
  then show ?case by simp
next
  case (Suc n)
  from Suc.prems(4) obtain st1 where s1: "nivasch_step f k st = Next st1"
    and it: "nivasch_iter f k n st1 = Next st'"
    by (auto split: step_result.splits)
  from Suc.prems(2) have len: "length (fst st) = nat k" by (simp add: nivasch_inv_def)
  from Suc.IH[OF Suc.prems(1) nivasch_inv_step[OF Suc.prems(1,2) s1]
      cur_in_step[OF Suc.prems(1) len s1] it]
  show ?case .
qed

lemma min_kept_step:
  assumes k: "1 \<le> k" and len: "length (fst st) = nat k"
    and step: "nivasch_step f k st = Next st'"
    and c: "c \<in> set (fst st ! nat (c mod k))" and le: "c \<le> f (snd st)"
  shows "c \<in> set (fst st' ! nat (c mod k))"
proof -
  obtain stacks x where st: "st = (stacks, x)" by (cases st)
  from k have J: "nat (f x mod k) < nat k" by (simp add: nat_less_iff)
  from nivasch_step_Next[OF k len[unfolded st fst_conv] step[unfolded st]]
  obtain s' where st': "st' = (stacks[nat (f x mod k) := s' @ [f x]], f x)"
    and keep: "\<forall>y \<in> set (stacks ! nat (f x mod k)). y \<le> f x \<longrightarrow> y \<in> set s'" by blast
  show ?thesis
  proof (cases "nat (c mod k) = nat (f x mod k)")
    case True
    with c le st keep have "c \<in> set s'" by simp
    with True J len st st' show ?thesis by simp
  next
    case False
    with c st st' show ?thesis by simp
  qed
qed

lemma min_kept_iter:
  "1 \<le> k \<Longrightarrow> nivasch_inv f k start m st \<Longrightarrow> c \<in> set (fst st ! nat (c mod k)) \<Longrightarrow>
   (\<And>i. m < i \<Longrightarrow> c \<le> (f ^^ i) start) \<Longrightarrow>
   nivasch_iter f k n st = Next st' \<Longrightarrow> c \<in> set (fst st' ! nat (c mod k))"
proof (induction n arbitrary: m st)
  case 0
  then show ?case by simp
next
  case (Suc n)
  from Suc.prems(5) obtain st1 where s1: "nivasch_step f k st = Next st1"
    and it: "nivasch_iter f k n st1 = Next st'"
    by (auto split: step_result.splits)
  from Suc.prems(2) have len: "length (fst st) = nat k" and cur: "snd st = (f ^^ m) start"
    by (simp_all add: nivasch_inv_def)
  have "c \<le> (f ^^ Suc m) start" by (rule Suc.prems(4)) simp
  with cur have le: "c \<le> f (snd st)" by simp
  have c1: "c \<in> set (fst st1 ! nat (c mod k))"
    by (rule min_kept_step[OF Suc.prems(1) len s1 Suc.prems(3) le])
  have later: "\<And>i. Suc m < i \<Longrightarrow> c \<le> (f ^^ i) start" using Suc.prems(4) by simp
  from Suc.IH[OF Suc.prems(1) nivasch_inv_step[OF Suc.prems(1,2) s1] c1 later it]
  show ?case .
qed

subsection \<open>Pigeonhole on the orbit, and the least value of the cycle\<close>

lemma orbit_in_domain:
  assumes "start \<in> D" "\<forall>x \<in> D. f x \<in> D"
  shows "(f ^^ n) start \<in> D"
  using assms by (induction n) simp_all

lemma orbit_repeats:
  assumes "finite D" "start \<in> D" "\<forall>x \<in> D. f x \<in> (D :: int set)"
  shows "\<exists>a b. a < b \<and> (f ^^ a) start = (f ^^ b) start"
proof -
  let ?g = "\<lambda>n::nat. (f ^^ n) start"
  have "range ?g \<subseteq> D" using orbit_in_domain[OF assms(2,3)] by blast
  with assms(1) have "finite (range ?g)" by (rule rev_finite_subset)
  then have "\<not> inj ?g" using finite_imageD infinite_UNIV_nat by blast
  then obtain a b where ne: "a \<noteq> b" and eq: "?g a = ?g b" by (auto simp: inj_on_def)
  show ?thesis
  proof (cases "a < b")
    case True
    with eq show ?thesis by blast
  next
    case False
    with ne have "b < a" by simp
    with eq show ?thesis by metis
  qed
qed

lemma orbit_periodic:
  fixes f :: "'a \<Rightarrow> 'a"
  assumes "(f ^^ a) start = (f ^^ (a + p)) start" "a \<le> n"
  shows "(f ^^ (n + p)) start = (f ^^ n) start"
proof -
  from assms(2) obtain d where n: "n = d + a" by (metis le_add_diff_inverse2)
  have "(f ^^ (n + p)) start = (f ^^ d) ((f ^^ (a + p)) start)"
    unfolding n by (simp add: funpow_add add.assoc del: funpow.simps)
  also have "\<dots> = (f ^^ d) ((f ^^ a) start)" using assms(1) by simp
  also have "\<dots> = (f ^^ n) start" unfolding n by (simp add: funpow_add)
  finally show ?thesis .
qed

lemma orbit_cycle_min:
  fixes f :: "int \<Rightarrow> int"
  assumes ab: "a < b" and eq: "(f ^^ a) start = (f ^^ b) start"
  shows "\<exists>t. a \<le> t \<and> t < b \<and> (\<forall>n \<ge> a. (f ^^ t) start \<le> ((f ^^ n) start :: int))"
proof -
  let ?g = "\<lambda>n::nat. (f ^^ n) start"
  define C where "C = ?g ` {a..<b}"
  define p where "p = b - a"
  from ab have p: "0 < p" "a + p = b" by (simp_all add: p_def)
  have fin: "finite C" and ne: "C \<noteq> {}" using ab by (simp_all add: C_def)
  have inC: "?g n \<in> C" if "a \<le> n" for n
    using that
  proof (induction n rule: less_induct)
    case (less n)
    show ?case
    proof (cases "n < b")
      case True
      with less.prems show ?thesis by (simp add: C_def)
    next
      case False
      with p have a: "a \<le> n - p" and lt: "n - p < n" and n: "n - p + p = n" by simp_all
      from eq p have "?g a = ?g (a + p)" by simp
      from orbit_periodic[OF this a] n have "?g n = ?g (n - p)" by simp
      with less.IH[OF lt a] show ?thesis by simp
    qed
  qed
  from fin ne have "Min C \<in> C" by (rule Min_in)
  then obtain t where t: "a \<le> t" "t < b" "?g t = Min C" by (auto simp: C_def)
  have "\<forall>n \<ge> a. ?g t \<le> ?g n"
  proof (intro allI impI)
    fix n assume "a \<le> n"
    then have "?g n \<in> C" by (rule inC)
    with fin t(3) show "?g t \<le> ?g n" by simp
  qed
  with t show ?thesis by blast
qed

text \<open>
  Claim C9. For a self-map \<open>f\<close> of a finite set \<open>D\<close>, a start in \<open>D\<close> and \<open>k \<ge> 1\<close>,
  \<^verbatim>\<open>find_cycle\<close> terminates and returns a point. The least value \<open>c\<close> of the cycle is
  never popped once it is pushed, so the second visit of \<open>c\<close> at the latest ends the
  loop.
\<close>

theorem find_cycle_terminates:
  assumes fin: "finite D" and start: "start \<in> D" and closed: "\<forall>x \<in> D. f x \<in> D"
    and k: "1 \<le> k"
  shows "\<exists>x. find_cycle f k start = Some (Inr x)"
proof -
  let ?g = "\<lambda>n::nat. (f ^^ n) start"
  from orbit_repeats[OF fin start closed]
  obtain a b where ab: "a < b" and eq: "?g a = ?g b" by blast
  from orbit_cycle_min[OF ab eq]
  obtain t where t: "a \<le> t" "t < b" and least: "\<And>n. a \<le> n \<Longrightarrow> ?g t \<le> ?g n" by blast
  define c where "c = ?g t"
  define p where "p = b - a"
  from ab have p: "0 < p" "a + p = b" by (simp_all add: p_def)
  have per: "?g (t + p) = c"
    unfolding c_def by (rule orbit_periodic[OF _ t(1)]) (simp add: p eq)
  obtain st0 where init: "find_cycle_init k start = Inr st0"
    using find_cycle_init_pos[OF k] by blast
  note inv0 = find_cycle_init_inv[OF k init, of f]
  have run: "\<exists>n x. nivasch_iter f k n st0 = Done (Inr x)"
  proof (cases "nivasch_iter f k (t + (p - 1)) st0")
    case (Done r)
    with nivasch_iter_no_error[OF k inv0, of "t + (p - 1)"] obtain x where "r = Inr x"
      by (cases r) auto
    with Done show ?thesis by blast
  next
    case (Next st2)
    then obtain st1 where it1: "nivasch_iter f k t st0 = Next st1"
      and it2: "nivasch_iter f k (p - 1) st1 = Next st2"
      by (auto simp: nivasch_iter_add split: step_result.splits)
    from nivasch_iter_inv[OF k inv0 it1] have inv1: "nivasch_inv f k start t st1" by simp
    then have cur1: "snd st1 = c" by (simp add: nivasch_inv_def c_def)
    from cur_in_iter[OF k inv0 cur_in_init[OF k init] it1] cur1
    have c1: "c \<in> set (fst st1 ! nat (c mod k))" by (simp add: cur_in_def)
    have later: "\<And>i. t < i \<Longrightarrow> c \<le> ?g i" unfolding c_def using least t(1) by simp
    from min_kept_iter[OF k inv1 c1 later it2]
    have c2: "c \<in> set (fst st2 ! nat (c mod k))" .
    from nivasch_iter_inv[OF k inv1 it2]
    have inv2: "nivasch_inv f k start (t + (p - 1)) st2" .
    then have len2: "length (fst st2) = nat k" and cur2: "snd st2 = ?g (t + (p - 1))"
      by (simp_all add: nivasch_inv_def)
    from p(1) have "Suc (t + (p - 1)) = t + p" by simp
    then have "f (snd st2) = ?g (t + p)" unfolding cur2 by (metis funpow.simps(2) o_apply)
    with per have fx: "f (snd st2) = c" by simp
    have "nivasch_step f k (fst st2, snd st2) = Done (Inr (f (snd st2)))"
      by (rule nivasch_step_hit[OF k len2]) (simp add: fx c2)
    then have "nivasch_step f k st2 = Done (Inr c)" by (simp add: fx)
    then have "nivasch_iter f k (Suc 0) st2 = Done (Inr c)" by simp
    with Next have "nivasch_iter f k (t + (p - 1) + Suc 0) st0 = Done (Inr c)"
      by (subst nivasch_iter_add) (simp del: nivasch_iter.simps)
    then show ?thesis by blast
  qed
  then obtain n x where "nivasch_iter f k n st0 = Done (Inr x)" by blast
  then have "nivasch_loop f k st0 = Some (Inr x)" by (rule iter_Done_loop)
  with init show ?thesis by (simp add: find_cycle_def)
qed


lemma ex_init: "find_cycle_init 1 3 = Inr ([[3]], 3)"
  by (simp add: find_cycle_init_def init_stacks_def py_mod_def py_index_def)

lemma ex_step1: "nivasch_step ex_map 1 ([[3]], 3) = Next ([[3, 7]], 7)"
  by (simp add: nivasch_step_def ex_map_def py_mod_def py_index_def pop_loop.simps)

lemma ex_step2: "nivasch_step ex_map 1 ([[3, 7]], 7) = Done (Inr 3)"
  by (simp add: nivasch_step_def ex_map_def py_mod_def py_index_def)

lemma ex_find_cycle: "find_cycle ex_map 1 3 = Some (Inr 3)"
  by (simp add: find_cycle_def ex_init iter_Done_loop[of ex_map 1 "Suc (Suc 0)"] ex_step1 ex_step2)

theorem find_cycle_on_cycle_witness:
  "find_cycle ex_map 1 3 = Some (Inr 3) \<and>
   (\<exists>i j. i < j \<and> (ex_map ^^ i) 3 = 3 \<and> (ex_map ^^ j) 3 = 3)"
  using find_cycle_on_cycle[of ex_map 1 3 3] ex_find_cycle by simp

theorem find_cycle_stacks_increasing_witness:
  "length [[3, 7 :: int]] = nat 1 \<and> sorted_wrt (<) ([[3, 7]] ! 0 :: int list) \<and>
   (3 :: int) mod 1 = int 0 \<and> (7 :: int) mod 1 = int 0"
  using find_cycle_stacks_increasing[of 1 3 "([[3]], 3)" ex_map 1 "[[3, 7]]" 7 0]
  by (simp add: ex_init ex_step1)

text \<open>
  Claim C7 as stated fails: after one iteration from \<open>start = 3\<close> with one stack the
  stack is \<open>[3, 7]\<close>, bottom first, which is not strictly decreasing.
\<close>

theorem find_cycle_stacks_decreasing_counterexample:
  "find_cycle_init 1 3 = Inr ([[3]], 3) \<and>
   nivasch_iter ex_map 1 1 ([[3]], 3) = Next ([[3, 7]], 7) \<and>
   \<not> sorted_wrt (>) ([[3, 7]] ! 0 :: int list)"
  by (simp add: ex_init ex_step1)

theorem find_cycle_terminates_witness:
  "\<exists>x. find_cycle ex_map 1 3 = Some (Inr x)"
  using find_cycle_terminates[of "{3, 7}" 3 ex_map 1] by (simp add: ex_map_def)

theorem find_cycle_index_safe_witness:
  "find_cycle ex_map 1 3 \<noteq> Some (Inl IndexError) \<and>
   find_cycle ex_map 0 3 = Some (Inl ZeroDivisionError) \<and>
   find_cycle ex_map (- 1) 3 = Some (Inl IndexError)"
  using find_cycle_index_safe[of 1 ex_map 3 IndexError]
        find_cycle_index_safe[of "- 1" ex_map 3 IndexError]
  by simp

section \<open>Properties of find_collision\<close>

lemma floyd_walk_fst_snd:
  assumes "floyd_walk f a b = Some r"
  shows "f (fst r) = f (snd r) \<and> (fst r \<noteq> snd r \<or> r = (a, b))"
proof (rule floyd_walk.raw_induct
    [where P = "\<lambda>f a b r. f (fst r) = f (snd r) \<and> (fst r \<noteq> snd r \<or> r = (a, b))",
     OF _ assms])
  fix walk :: "(int \<Rightarrow> int) \<Rightarrow> int \<Rightarrow> int \<Rightarrow> (int \<times> int) option"
  fix f a b r
  assume IH: "\<And>f a b r. walk f a b = Some r \<Longrightarrow>
                f (fst r) = f (snd r) \<and> (fst r \<noteq> snd r \<or> r = (a, b))"
  assume eq: "(if f a \<noteq> f b then walk f (f a) (f b) else Some (a, b)) = Some r"
  show "f (fst r) = f (snd r) \<and> (fst r \<noteq> snd r \<or> r = (a, b))"
  proof (cases "f a = f b")
    case True
    with eq show ?thesis by auto
  next
    case False
    with eq have "walk f (f a) (f b) = Some r" by simp
    from IH[OF this] False show ?thesis by auto
  qed
qed

lemma floyd_walk_result:
  assumes "floyd_walk f a b = Some (x0, x1)"
  shows "f x0 = f x1 \<and> (x0 \<noteq> x1 \<or> (x0 = a \<and> x1 = b))"
  using floyd_walk_fst_snd[OF assms] by simp

text \<open>
  Claim C1. Whenever \<^verbatim>\<open>find_collision(f, start)\<close> returns a pair \<open>(x0, x1)\<close>, either
  \<open>x0 \<noteq> x1\<close> and \<open>f(x0) = f(x1)\<close>, or the pair is the degenerate \<open>(start, start)\<close>.
\<close>

theorem find_collision_result:
  assumes "find_collision f start = Some (x0, x1)"
  shows "(x0 \<noteq> x1 \<and> f x0 = f x1) \<or> (x0 = start \<and> x1 = start)"
proof (cases "f start = start")
  case True
  with assms show ?thesis by (simp add: find_collision_def)
next
  case False
  with assms obtain p1 p2 count where
    meet: "floyd_meet f (f start) (f (f start)) 0 = Some (p1, p2, count)"
    and rest: "(if started_at_cycle f start (count * 2) p1 then Some (start, start)
                else floyd_walk f start p2) = Some (x0, x1)"
    by (auto simp: find_collision_def split: option.splits)
  show ?thesis
  proof (cases "started_at_cycle f start (count * 2) p1")
    case True
    with rest show ?thesis by simp
  next
    case False
    with rest have "floyd_walk f start p2 = Some (x0, x1)" by simp
    from floyd_walk_result[OF this] show ?thesis by auto
  qed
qed

lemma ex_tail_meet: "floyd_meet ex_tail (ex_tail 0) (ex_tail (ex_tail 0)) 0 = Some (2, 2, 1)"
  by (simp add: floyd_meet.simps ex_tail_def)

lemma ex_tail_collision: "find_collision ex_tail 0 = Some (0, 2)"
proof -
  have "started_at_cycle ex_tail 0 (Suc (Suc 0)) 2 = False" by (simp add: ex_tail_def)
  moreover have "floyd_walk ex_tail 0 2 = Some (0, 2)"
    by (subst floyd_walk.simps) (simp add: ex_tail_def)
  moreover have "ex_tail 0 \<noteq> 0" by (simp add: ex_tail_def)
  ultimately show ?thesis
    by (simp add: find_collision_def ex_tail_meet numeral_2_eq_2)
qed

theorem find_collision_result_witness:
  "find_collision ex_tail 0 = Some (0, 2) \<and> (0 :: int) \<noteq> 2 \<and> ex_tail 0 = ex_tail 2"
  using find_collision_result[of ex_tail 0 0 2] ex_tail_collision by simp

lemma funpow_period_mult:
  fixes f :: "'a \<Rightarrow> 'a"
  assumes "(f ^^ L) s = s"
  shows "(f ^^ (q * L)) s = s"
proof (induction q)
  case 0
  show ?case by simp
next
  case (Suc q)
  have "(f ^^ (Suc q * L)) s = (f ^^ L) ((f ^^ (q * L)) s)"
    by (simp add: funpow_add)
  with Suc assms show ?case by simp
qed

lemma started_at_cycle_iff:
  "started_at_cycle f start n p \<longleftrightarrow> (\<exists>i. 1 \<le> i \<and> i \<le> n \<and> (f ^^ i) p = start)"
proof (induction n arbitrary: p)
  case 0
  show ?case by simp
next
  case (Suc n)
  show ?case
  proof (cases "f p = start")
    case True
    then have "1 \<le> (1::nat) \<and> 1 \<le> Suc n \<and> (f ^^ 1) p = start" by simp
    then have "\<exists>i. 1 \<le> i \<and> i \<le> Suc n \<and> (f ^^ i) p = start" by blast
    with True show ?thesis by simp
  next
    case False
    have "(\<exists>i. 1 \<le> i \<and> i \<le> n \<and> (f ^^ i) (f p) = start) \<longleftrightarrow>
          (\<exists>i. 1 \<le> i \<and> i \<le> Suc n \<and> (f ^^ i) p = start)" (is "?A \<longleftrightarrow> ?B")
    proof
      assume ?A
      then obtain i where i: "1 \<le> i" "i \<le> n" "(f ^^ i) (f p) = start" by blast
      then have "1 \<le> Suc i \<and> Suc i \<le> Suc n \<and> (f ^^ Suc i) p = start"
        by (simp add: funpow_swap1)
      then show ?B by blast
    next
      assume ?B
      then obtain i where i: "1 \<le> i" "i \<le> Suc n" "(f ^^ i) p = start" by blast
      from i(1) obtain j where j: "i = Suc j" by (cases i) auto
      with i(3) False have "j \<noteq> 0" by (cases j) auto
      with i j have "1 \<le> j \<and> j \<le> n \<and> (f ^^ j) (f p) = start"
        by (simp add: funpow_swap1)
      then show ?A by blast
    qed
    with False Suc.IH[of "f p"] show ?thesis by (simp add: Let_def)
  qed
qed

lemma floyd_meet_on_cycle:
  fixes f :: "int \<Rightarrow> int"
  assumes L: "0 < L" and per: "(f ^^ L) s = s"
    and least: "\<And>m. 0 < m \<Longrightarrow> m < L \<Longrightarrow> (f ^^ m) s \<noteq> s"
    and c: "c < L"
  shows "floyd_meet f ((f ^^ (c + 1)) s) ((f ^^ (2 * c + 2)) s) c = Some (s, s, L - 1)"
  using c
proof (induction "L - 1 - c" arbitrary: c)
  case 0
  then have c: "c = L - 1" by simp
  with L have c1: "c + 1 = L" and c2: "2 * c + 2 = 2 * L" by simp_all
  from funpow_period_mult[OF per, of 2] have "(f ^^ (2 * L)) s = s" .
  with per c1 c2 c show ?case by (subst floyd_meet.simps) simp
next
  case (Suc d)
  then have lt: "c + 1 < L" by simp
  define y where "y = (f ^^ (c + 1)) s"
  have ne: "y \<noteq> (f ^^ (2 * c + 2)) s"
  proof
    assume eq: "y = (f ^^ (2 * c + 2)) s"
    have "2 * c + 2 = (c + 1) + (c + 1)" by simp
    then have "(f ^^ (2 * c + 2)) s = (f ^^ ((c + 1) + (c + 1))) s" by (simp only:)
    also have "\<dots> = (f ^^ (c + 1)) y"
      unfolding y_def by (simp only: funpow_add o_apply)
    finally have "(f ^^ (2 * c + 2)) s = (f ^^ (c + 1)) y" .
    with eq have fixy: "(f ^^ (c + 1)) y = y" by simp
    have ret: "(f ^^ (L - (c + 1))) y = s"
    proof -
      have "(f ^^ (L - (c + 1))) y = (f ^^ (L - (c + 1) + (c + 1))) s"
        unfolding y_def by (simp only: funpow_add o_apply)
      also from lt have "L - (c + 1) + (c + 1) = L" by simp
      finally show ?thesis using per by simp
    qed
    have "s = (f ^^ (L - (c + 1))) ((f ^^ (c + 1)) y)" using fixy ret by simp
    also have "\<dots> = (f ^^ (c + 1)) ((f ^^ (L - (c + 1))) y)"
      by (simp only: funpow_add[symmetric, unfolded o_def, THEN fun_cong] add.commute)
    also have "\<dots> = (f ^^ (c + 1)) s" using ret by simp
    finally have "(f ^^ (c + 1)) s = s" by simp
    with least[of "c + 1"] lt show False by simp
  qed
  have step1: "f y = (f ^^ (Suc c + 1)) s" by (simp add: y_def)
  have step2: "f (f ((f ^^ (2 * c + 2)) s)) = (f ^^ (2 * Suc c + 2)) s" by simp
  from Suc.hyps(2) have d: "d = L - 1 - Suc c" by simp
  from lt have "Suc c < L" by simp
  from Suc.hyps(1)[OF d this] have
    IH: "floyd_meet f ((f ^^ (Suc c + 1)) s) ((f ^^ (2 * Suc c + 2)) s) (Suc c) = Some (s, s, L - 1)" .
  have "floyd_meet f y ((f ^^ (2 * c + 2)) s) c =
        floyd_meet f (f y) (f (f ((f ^^ (2 * c + 2)) s))) (c + 1)"
    using ne by (subst floyd_meet.simps) simp
  also have "\<dots> = Some (s, s, L - 1)" unfolding step1 step2 using IH by simp
  finally show ?case unfolding y_def .
qed

text \<open>
  Claim C5. When \<open>start\<close> lies on the cycle of its own orbit, that is
  \<open>f\<^sup>n(start) = start\<close> for some \<open>n > 0\<close>, \<^verbatim>\<open>find_collision(f, start)\<close> terminates and
  returns \<open>(start, start)\<close>. When \<open>start\<close> is not a fixed point, the first loop ends
  with both pointers at \<open>start\<close> after some number \<open>count\<close> of rounds, and the
  verification walk of \<open>2 count\<close> steps from that meeting point revisits \<open>start\<close>: the
  degenerate pair is the early return of the check. A fixed point returns at the
  first test.
\<close>

theorem find_collision_start_on_cycle:
  assumes n: "0 < n" and cyc: "(f ^^ n) start = start"
  shows "find_collision f start = Some (start, start) \<and>
         (f start \<noteq> start \<longrightarrow>
            (\<exists>count. floyd_meet f (f start) (f (f start)) 0 = Some (start, start, count) \<and>
                     started_at_cycle f start (count * 2) start))"
proof (cases "f start = start")
  case True
  then show ?thesis by (simp add: find_collision_def)
next
  case False
  define L where "L = (LEAST m. 0 < m \<and> (f ^^ m) start = start)"
  from n cyc have ex: "0 < n \<and> (f ^^ n) start = start" by simp
  from LeastI[of "\<lambda>m. 0 < m \<and> (f ^^ m) start = start", OF ex]
  have L: "0 < L" and per: "(f ^^ L) start = start" by (simp_all add: L_def)
  have least: "\<And>m. 0 < m \<Longrightarrow> m < L \<Longrightarrow> (f ^^ m) start \<noteq> start"
    using not_less_Least[of _ "\<lambda>m. 0 < m \<and> (f ^^ m) start = start"] by (auto simp: L_def)
  from False per have "L \<noteq> 1" by auto
  with L have L2: "2 \<le> L" by simp
  from floyd_meet_on_cycle[OF L per least, of 0] L
  have meet: "floyd_meet f (f start) (f (f start)) 0 = Some (start, start, L - 1)"
    by (simp add: numeral_2_eq_2)
  from L2 per have "1 \<le> L \<and> L \<le> (L - 1) * 2 \<and> (f ^^ L) start = start" by simp
  then have fires: "started_at_cycle f start ((L - 1) * 2) start"
    unfolding started_at_cycle_iff by blast
  from False meet fires have res: "find_collision f start = Some (start, start)"
    by (simp add: find_collision_def)
  from meet fires have
    "\<exists>count. floyd_meet f (f start) (f (f start)) 0 = Some (start, start, count) \<and>
             started_at_cycle f start (count * 2) start" by blast
  with res show ?thesis by simp
qed

lemma ex_map_meet: "floyd_meet ex_map (ex_map 3) (ex_map (ex_map 3)) 0 = Some (3, 3, 1)"
  by (simp add: floyd_meet.simps ex_map_def)

theorem find_collision_start_on_cycle_witness:
  "find_collision ex_map 3 = Some (3, 3) \<and>
   floyd_meet ex_map (ex_map 3) (ex_map (ex_map 3)) 0 = Some (3, 3, 1) \<and>
   started_at_cycle ex_map 3 (1 * 2) 3"
  using find_collision_start_on_cycle[of 2 ex_map 3]
  by (simp add: ex_map_meet) (simp add: ex_map_def numeral_2_eq_2)

section \<open>Properties of the adapter and of hellman\_online\<close>

subsection \<open>The adapter\<close>

text \<open>
  Claim C8, as the code has it. Constructing the adapter never fails: for an
  oracle of any sizes \<^verbatim>\<open>ModifiedPRF(f)\<close> returns the adapter holding that oracle; the
  bounds \<open>domain \<le> range\<^sup>2\<close> and \<open>range \<le> domain\<^sup>2\<close> are not validated.
\<close>

theorem ModifiedPRF_init_no_validation:
  "\<exists>F. ModifiedPRF_init orc = Inr F \<and> self_f F = orc"
  by (simp add: ModifiedPRF_init_def)

text \<open>
  Claim C8 as stated fails: an oracle with \<open>domain = 5\<close> and \<open>range = 2\<close> breaks
  \<open>domain \<le> range\<^sup>2\<close>, and the constructor returns an adapter, not an error.
\<close>

theorem ModifiedPRF_init_counterexample:
  "\<not> domain ex_bad_prf \<le> (rang ex_bad_prf)\<^sup>2 \<and>
   ModifiedPRF_init ex_bad_prf = Inr (ModifiedPRF ex_bad_prf)"
  by (simp add: ModifiedPRF_init_def ex_bad_prf_def)

text \<open>
  Claim C4. In each of the three regimes, the oracle evaluated at \<^verbatim>\<open>recover_x(x)\<close>
  gives what the adapted self-map gives at \<open>x\<close>, and \<^verbatim>\<open>recover_x\<close> raises exactly when
  \<^verbatim>\<open>calc\<close> does: a working-space preimage of \<open>y\<close> is mapped to an oracle preimage of \<open>y\<close>.
\<close>

theorem recover_x_roundtrip:
  "ModifiedPRF_calc F x =
     (case recover_x F x of Inl e \<Rightarrow> Inl e | Inr x' \<Rightarrow> Inr (calc (self_f F) x'))"
  by (simp add: ModifiedPRF_calc_def recover_x_def Let_def py_mod_def)

lemma ModifiedPRF_calc_no_error:
  "domain (self_f F) \<noteq> 0 \<Longrightarrow> \<exists>v. ModifiedPRF_calc F x = Inr v"
  by (simp add: ModifiedPRF_calc_def Let_def py_mod_def)

lemma chain_step_no_error:
  "domain (self_f F) \<noteq> 0 \<Longrightarrow> \<exists>v. chain_step F i a = Inr v"
  using ModifiedPRF_calc_no_error by (simp add: chain_step_def py_mod_def)

subsection \<open>The online search returns confirmed preimages\<close>

lemma replay_sound:
  "replay F i y n a = Inr (Some x) \<Longrightarrow> ModifiedPRF_calc F x = Inr y"
proof (induction n arbitrary: a)
  case 0
  then show ?case by simp
next
  case (Suc n)
  from Suc.prems obtain v where v: "chain_step F i a = Inr v"
    by (auto split: sum.splits)
  show ?case
  proof (cases "v = y")
    case True
    with Suc.prems v have "py_mod (a + int i) (domain (self_f F)) = Inr x"
      by (auto split: sum.splits)
    with v True show ?thesis by (simp add: chain_step_def)
  next
    case False
    with Suc.prems v have "replay F i y n v = Inr (Some x)" by simp
    then show ?thesis by (rule Suc.IH)
  qed
qed

lemma replay_no_error:
  assumes "domain (self_f F) \<noteq> 0"
  shows "\<exists>r. replay F i y n a = Inr r"
proof (induction n arbitrary: a)
  case 0
  show ?case by simp
next
  case (Suc n)
  from chain_step_no_error[OF assms] obtain v where v: "chain_step F i a = Inr v" by blast
  from Suc[of v] obtain r where "replay F i y n v = Inr r" by blast
  with v assms show ?case by (simp add: py_mod_def)
qed

lemma try_starts_sound:
  "try_starts F i y t as = Inr (Some x) \<Longrightarrow> ModifiedPRF_calc F x = Inr y"
proof (induction as)
  case Nil
  then show ?case by simp
next
  case (Cons a as)
  then show ?case
    by (auto split: sum.splits option.splits dest: replay_sound)
qed

lemma try_starts_no_error:
  assumes "domain (self_f F) \<noteq> 0"
  shows "\<exists>r. try_starts F i y t as = Inr r"
proof (induction as)
  case Nil
  show ?case by simp
next
  case (Cons a as)
  from replay_no_error[OF assms] obtain r where "replay F i y t a = Inr r" by blast
  with Cons show ?case by (cases r) auto
qed

lemma walk_sound:
  "fst (walk F i y t tb n cur) = Inr (Some x) \<Longrightarrow> ModifiedPRF_calc F x = Inr y"
proof (induction n arbitrary: tb cur)
  case 0
  then show ?case by simp
next
  case (Suc n)
  obtain starts tb' where g: "dd_get tb cur = (starts, tb')" by (cases "dd_get tb cur")
  show ?case
  proof (cases "if length starts > 0 then try_starts F i y t starts else Inr None")
    case (Inl e)
    with Suc.prems g show ?thesis by simp
  next
    case (Inr r)
    show ?thesis
    proof (cases r)
      case (Some x')
      with Inr Suc.prems g have "x' = x" by simp
      with Inr Some have "try_starts F i y t starts = Inr (Some x)"
        by (simp split: if_splits)
      then show ?thesis by (rule try_starts_sound)
    next
      case None
      show ?thesis
      proof (cases "chain_step F i cur")
        case (Inl e)
        with None Inr Suc.prems g show ?thesis by simp
      next
        case (Inr cur')
        with None \<open>(if length starts > 0 then try_starts F i y t starts else Inr None) = Inr r\<close>
          Suc.prems g
        have "fst (walk F i y t tb' n cur') = Inr (Some x)" by simp
        then show ?thesis by (rule Suc.IH)
      qed
    qed
  qed
qed

lemma walk_no_error:
  assumes "domain (self_f F) \<noteq> 0"
  shows "\<exists>r. fst (walk F i y t tb n cur) = Inr r"
proof (induction n arbitrary: tb cur)
  case 0
  show ?case by simp
next
  case (Suc n)
  obtain starts tb' where g: "dd_get tb cur = (starts, tb')" by (cases "dd_get tb cur")
  from try_starts_no_error[OF assms, of i y t starts] obtain r0 where
    "try_starts F i y t starts = Inr r0" by blast
  then have "\<exists>r1. (if length starts > 0 then try_starts F i y t starts else Inr None) = Inr r1"
    by simp
  then obtain r1 where
    r1: "(if length starts > 0 then try_starts F i y t starts else Inr None) = Inr r1"
    by blast
  from chain_step_no_error[OF assms] obtain cur' where c: "chain_step F i cur = Inr cur'"
    by blast
  from Suc[of tb' cur'] obtain r where "fst (walk F i y t tb' n cur') = Inr r" by blast
  with g r1 c show ?case by (cases r1) auto
qed

lemma online_loop_end:
  "\<not> i < length tables \<Longrightarrow> online_loop F t y i tables = (Inr None, tables)"
  by (subst online_loop.simps) simp

lemma online_loop_unfold:
  "i < length tables \<Longrightarrow> walk F i y t (tables ! i) t y = (r, tb') \<Longrightarrow>
   online_loop F t y i tables =
     (if r = Inr None then online_loop F t y (Suc i) (tables[i := tb'])
      else (r, tables[i := tb']))"
  by (subst online_loop.simps) (auto simp: Let_def split: sum.splits option.splits)

lemma online_loop_sound:
  "fst (online_loop F t y i tables) = Inr (Some x) \<Longrightarrow> ModifiedPRF_calc F x = Inr y"
proof (induction F t y i tables rule: online_loop.induct)
  case (1 F t y i tables)
  show ?case
  proof (cases "i < length tables")
    case False
    with 1(2) show ?thesis by (simp add: online_loop_end)
  next
    case True
    obtain r tb' where w: "walk F i y t (tables ! i) t y = (r, tb')"
      by (cases "walk F i y t (tables ! i) t y")
    show ?thesis
    proof (cases "r = Inr None")
      case rNone: True
      with 1(2) have "fst (online_loop F t y (Suc i) (tables[i := tb'])) = Inr (Some x)"
        by (simp add: online_loop_unfold[OF True w])
      from 1(1)[OF True refl w[symmetric] refl rNone refl this] show ?thesis .
    next
      case False
      with 1(2) have "r = Inr (Some x)"
        by (simp add: online_loop_unfold[OF True w])
      with w have "fst (walk F i y t (tables ! i) t y) = Inr (Some x)" by simp
      then show ?thesis by (rule walk_sound)
    qed
  qed
qed

lemma online_loop_no_error:
  "domain (self_f F) \<noteq> 0 \<Longrightarrow> \<exists>r. fst (online_loop F t y i tables) = Inr r"
proof (induction F t y i tables rule: online_loop.induct)
  case (1 F t y i tables)
  show ?case
  proof (cases "i < length tables")
    case False
    then show ?thesis by (simp add: online_loop_end)
  next
    case True
    obtain r tb' where w: "walk F i y t (tables ! i) t y = (r, tb')"
      by (cases "walk F i y t (tables ! i) t y")
    from walk_no_error[OF 1(2), of i y t "tables ! i" t y] w obtain r' where r': "r = Inr r'"
      by auto
    show ?thesis
    proof (cases r')
      case None
      with r' have rNone: "r = Inr None" by simp
      from 1(1)[OF True refl w[symmetric] refl rNone refl 1(2)] obtain r2 where
        "fst (online_loop F t y (Suc i) (tables[i := tb'])) = Inr r2" by blast
      with rNone show ?thesis by (simp add: online_loop_unfold[OF True w])
    next
      case (Some x)
      with r' show ?thesis by (simp add: online_loop_unfold[OF True w])
    qed
  qed
qed

text \<open>
  Claim C3, as the code has it. Whenever \<^verbatim>\<open>hellman_online(tables, t, y, f')\<close> returns
  a value \<open>x\<close> other than \<^verbatim>\<open>None\<close>, the adapted self-map sends \<open>x\<close> to \<open>y\<close>; and when the
  oracle's published domain size is not zero the call raises no error, so that it
  returns \<^verbatim>\<open>None\<close> whenever no replayed chain confirms a preimage.
\<close>

theorem hellman_online_confirmed:
  "(fst (hellman_online tables t y F) = Inr (Some x) \<longrightarrow> ModifiedPRF_calc F x = Inr y) \<and>
   (domain (self_f F) \<noteq> 0 \<longrightarrow> (\<exists>r. fst (hellman_online tables t y F) = Inr r))"
  using online_loop_sound[of F "nat t" y 0 tables x] online_loop_no_error[of F "nat t" y 0 tables]
  by (simp add: hellman_online_def)

lemma ex_online_found: "hellman_online [ex_table] 1 7 (ModifiedPRF ex_prf) = (Inr (Some 3), [ex_table])"
  by (simp add: hellman_online_def online_loop.simps ex_table_def ex_prf_def dd_get_def
      chain_step_def py_mod_def ModifiedPRF_calc_def ex_map_def)

lemma ex_online_missed:
  "hellman_online [ex_table] 1 5 (ModifiedPRF ex_prf) = (Inr None, [ex_table(5 \<mapsto> [])])"
  by (simp add: hellman_online_def online_loop.simps ex_table_def ex_prf_def dd_get_def
      chain_step_def py_mod_def ModifiedPRF_calc_def ex_map_def)

lemma ex_prf_domain: "domain (self_f (ModifiedPRF ex_prf)) = 10"
  by (simp add: ex_prf_def)

theorem hellman_online_confirmed_witness:
  "fst (hellman_online [ex_table] 1 7 (ModifiedPRF ex_prf)) = Inr (Some 3) \<and>
   ModifiedPRF_calc (ModifiedPRF ex_prf) 3 = Inr 7 \<and>
   domain (self_f (ModifiedPRF ex_prf)) \<noteq> 0 \<and>
   fst (hellman_online [ex_table] 1 5 (ModifiedPRF ex_prf)) = Inr None"
  using hellman_online_confirmed[of "[ex_table]" 1 7 "ModifiedPRF ex_prf" 3]
  by (simp add: ex_online_found ex_online_missed ex_prf_domain del: modified_prf.sel)

text \<open>
  Claim C3 as stated fails for an adapter whose oracle publishes the domain size
  zero: no chain confirms a preimage of \<open>5\<close>, and the step \<^verbatim>\<open>(curr + i) % f_tag.f.domain\<close>
  raises instead of the call returning \<^verbatim>\<open>None\<close>.
\<close>

theorem hellman_online_zero_domain_counterexample:
  "domain (self_f (ModifiedPRF ex_zero_prf)) = 0 \<and>
   fst (hellman_online [ex_table] 1 5 (ModifiedPRF ex_zero_prf)) = Inl ZeroDivisionError"
  by (simp add: hellman_online_def online_loop.simps ex_table_def ex_zero_prf_def dd_get_def
      chain_step_def py_mod_def)

subsection \<open>What the online search does to the tables\<close>

lemma same_start_points_refl: "same_start_points tb tb"
  by (simp add: same_start_points_def)

lemma same_start_points_trans:
  "same_start_points a b \<Longrightarrow> same_start_points b c \<Longrightarrow> same_start_points a c"
proof -
  assume ab: "same_start_points a b" and bc: "same_start_points b c"
  from ab bc have "dom a \<subseteq> dom c" unfolding same_start_points_def by (meson order_trans)
  moreover from ab bc have "\<forall>key. start_points c key = start_points a key"
    by (simp add: same_start_points_def)
  ultimately show ?thesis by (simp add: same_start_points_def)
qed

lemma dd_get_same: "same_start_points tb (snd (dd_get tb key))"
  by (auto simp: same_start_points_def dd_get_def start_points_def split: option.splits)

lemma walk_same: "same_start_points tb (snd (walk F i y t tb n cur))"
proof (induction n arbitrary: tb cur)
  case 0
  show ?case by (simp add: same_start_points_refl)
next
  case (Suc n)
  obtain starts tb' where g: "dd_get tb cur = (starts, tb')" by (cases "dd_get tb cur")
  with dd_get_same[of tb cur] have s1: "same_start_points tb tb'" by simp
  have "snd (walk F i y t tb (Suc n) cur) = tb' \<or>
        (\<exists>cur'. snd (walk F i y t tb (Suc n) cur) = snd (walk F i y t tb' n cur'))"
    using g by (auto split: sum.splits option.splits)
  then show ?case
  proof
    assume "snd (walk F i y t tb (Suc n) cur) = tb'"
    with s1 show ?thesis by simp
  next
    assume "\<exists>cur'. snd (walk F i y t tb (Suc n) cur) = snd (walk F i y t tb' n cur')"
    then obtain cur' where
      "snd (walk F i y t tb (Suc n) cur) = snd (walk F i y t tb' n cur')" by blast
    with same_start_points_trans[OF s1 Suc[of tb' cur']] show ?thesis by simp
  qed
qed

lemma online_loop_same:
  "length (snd (online_loop F t y i tables)) = length tables \<and>
   (\<forall>j < length tables. same_start_points (tables ! j) (snd (online_loop F t y i tables) ! j))"
proof (induction F t y i tables rule: online_loop.induct)
  case (1 F t y i tables)
  show ?case
  proof (cases "i < length tables")
    case False
    then show ?thesis by (simp add: online_loop_end same_start_points_refl)
  next
    case True
    obtain r tb' where w: "walk F i y t (tables ! i) t y = (r, tb')"
      by (cases "walk F i y t (tables ! i) t y")
    from walk_same[of "tables ! i" F i y t t y] w
    have s1: "same_start_points (tables ! i) tb'" by simp
    have upd: "same_start_points (tables ! j) (tables[i := tb'] ! j)" if "j < length tables" for j
      using that s1 by (cases "j = i") (simp_all add: same_start_points_refl)
    show ?thesis
    proof (cases "r = Inr None")
      case False
      with upd show ?thesis by (simp add: online_loop_unfold[OF True w])
    next
      case rNone: True
      from 1[OF True refl w[symmetric] refl rNone refl]
      have len: "length (snd (online_loop F t y (Suc i) (tables[i := tb']))) = length tables"
        and rest: "\<And>j. j < length tables \<Longrightarrow> same_start_points (tables[i := tb'] ! j)
               (snd (online_loop F t y (Suc i) (tables[i := tb'])) ! j)"
        by simp_all
      have "same_start_points (tables ! j)
               (snd (online_loop F t y (Suc i) (tables[i := tb'])) ! j)"
        if "j < length tables" for j
        using same_start_points_trans[OF upd[OF that] rest[OF that]] .
      with len rNone show ?thesis by (simp add: online_loop_unfold[OF True w])
    qed
  qed
qed

lemma only_adds_refl: "only_adds tb tb K"
  by (simp add: only_adds_def)

lemma only_adds_dd_get: "only_adds tb (snd (dd_get tb key)) {key}"
  by (auto simp: only_adds_def dd_get_def split: option.splits)

lemma only_adds_trans:
  assumes "only_adds a b K1" "only_adds b c K2"
  shows "only_adds a c (K1 \<union> K2)"
  unfolding only_adds_def
proof
  fix key
  from assms(1) have ab: "b key = a key \<or> (a key = None \<and> b key = Some [] \<and> key \<in> K1)"
    by (simp add: only_adds_def)
  from assms(2) have bc: "c key = b key \<or> (b key = None \<and> c key = Some [] \<and> key \<in> K2)"
    by (simp add: only_adds_def)
  from ab bc show "c key = a key \<or> (a key = None \<and> c key = Some [] \<and> key \<in> K1 \<union> K2)"
    by auto
qed

lemma only_adds_mono: "only_adds a b K \<Longrightarrow> K \<subseteq> K' \<Longrightarrow> only_adds a b K'"
  by (auto simp: only_adds_def)

lemma walk_only_adds:
  "only_adds tb (snd (walk F i y t tb n cur)) (set (walk_lookups F i y t tb n cur))"
proof (induction n arbitrary: tb cur)
  case 0
  show ?case by (simp add: only_adds_refl)
next
  case (Suc n)
  obtain starts tb' where g: "dd_get tb cur = (starts, tb')" by (cases "dd_get tb cur")
  with only_adds_dd_get[of tb cur] have s1: "only_adds tb tb' {cur}" by simp
  let ?r = "if length starts > 0 then try_starts F i y t starts else Inr None"
  show ?case
  proof (cases "\<exists>cur'. ?r = Inr None \<and> chain_step F i cur = Inr cur'")
    case True
    then obtain cur' where r: "?r = Inr None" and c: "chain_step F i cur = Inr cur'" by blast
    from g r c have w: "snd (walk F i y t tb (Suc n) cur) = snd (walk F i y t tb' n cur')"
      by simp
    from g r c have l: "walk_lookups F i y t tb (Suc n) cur = cur # walk_lookups F i y t tb' n cur'"
      by simp
    from only_adds_trans[OF s1 Suc[of tb' cur']] show ?thesis
      unfolding w l by simp
  next
    case False
    with g have w: "snd (walk F i y t tb (Suc n) cur) = tb'"
      by (auto split: sum.splits option.splits)
    have "cur \<in> set (walk_lookups F i y t tb (Suc n) cur)" by simp
    then have "{cur} \<subseteq> set (walk_lookups F i y t tb (Suc n) cur)" by blast
    from only_adds_mono[OF s1 this] show ?thesis unfolding w .
  qed
qed

lemma online_loop_entries:
  "j < length tables \<Longrightarrow>
   snd (online_loop F t y i tables) ! j = tables ! j \<or>
   (i \<le> j \<and> snd (online_loop F t y i tables) ! j = snd (walk F j y t (tables ! j) t y))"
proof (induction F t y i tables rule: online_loop.induct)
  case (1 F t y i tables)
  show ?case
  proof (cases "i < length tables")
    case False
    then show ?thesis by (simp add: online_loop_end)
  next
    case True
    obtain r tb' where w: "walk F i y t (tables ! i) t y = (r, tb')"
      by (cases "walk F i y t (tables ! i) t y")
    have upd: "tables[i := tb'] ! j = tables ! j \<or>
               (i = j \<and> tables[i := tb'] ! j = snd (walk F j y t (tables ! j) t y))"
      using 1(2) w by (cases "j = i") auto
    show ?thesis
    proof (cases "r = Inr None")
      case False
      with upd show ?thesis by (auto simp add: online_loop_unfold[OF True w])
    next
      case rNone: True
      from 1(2) have j': "j < length (tables[i := tb'])" by simp
      from 1(1)[OF True refl w[symmetric] refl rNone refl j']
      have rest: "snd (online_loop F t y (Suc i) (tables[i := tb'])) ! j = tables[i := tb'] ! j \<or>
          (Suc i \<le> j \<and> snd (online_loop F t y (Suc i) (tables[i := tb'])) ! j =
             snd (walk F j y t (tables[i := tb'] ! j) t y))" .
      have res: "snd (online_loop F t y i tables) = snd (online_loop F t y (Suc i) (tables[i := tb']))"
        using rNone by (simp add: online_loop_unfold[OF True w])
      from rest show ?thesis
      proof
        assume "snd (online_loop F t y (Suc i) (tables[i := tb'])) ! j = tables[i := tb'] ! j"
        with upd res show ?thesis by auto
      next
        assume a: "Suc i \<le> j \<and> snd (online_loop F t y (Suc i) (tables[i := tb'])) ! j =
             snd (walk F j y t (tables[i := tb'] ! j) t y)"
        then have "tables[i := tb'] ! j = tables ! j" by simp
        with a res show ?thesis by simp
      qed
    qed
  qed
qed

text \<open>
  Claim C6, as the code has it. A call to \<^verbatim>\<open>hellman_online\<close> keeps the number of
  tables, removes no key from any table and leaves the ordered list of start
  points under every key as it was, an absent key counting as the empty list.
  Every entry of a table after the call is the entry before the call, or it is a
  key that was absent, now holds the empty list, and is one of the values at which
  the walk in that table evaluated \<^verbatim>\<open>tables[i][curr]\<close>.
\<close>

theorem hellman_online_only_adds_probed:
  "length (snd (hellman_online tables t y F)) = length tables \<and>
   (j < length tables \<longrightarrow>
      dom (tables ! j) \<subseteq> dom (snd (hellman_online tables t y F) ! j) \<and>
      (\<forall>key. start_points (snd (hellman_online tables t y F) ! j) key =
              start_points (tables ! j) key) \<and>
      (\<forall>key. (snd (hellman_online tables t y F) ! j) key = (tables ! j) key \<or>
             ((tables ! j) key = None \<and>
              (snd (hellman_online tables t y F) ! j) key = Some [] \<and>
              key \<in> set (walk_lookups F j y (nat t) (tables ! j) (nat t) y))))"
proof (intro conjI impI)
  show "length (snd (hellman_online tables t y F)) = length tables"
    using online_loop_same[of F "nat t" y 0 tables] by (simp add: hellman_online_def)
next
  assume j: "j < length tables"
  with online_loop_same[of F "nat t" y 0 tables]
  have same: "same_start_points (tables ! j) (snd (hellman_online tables t y F) ! j)"
    by (simp add: hellman_online_def)
  from same show "dom (tables ! j) \<subseteq> dom (snd (hellman_online tables t y F) ! j)"
    by (simp add: same_start_points_def)
  from same show "\<forall>key. start_points (snd (hellman_online tables t y F) ! j) key =
              start_points (tables ! j) key"
    by (simp add: same_start_points_def)
  have "only_adds (tables ! j) (snd (hellman_online tables t y F) ! j)
          (set (walk_lookups F j y (nat t) (tables ! j) (nat t) y))"
    using online_loop_entries[OF j, of F "nat t" y 0]
      walk_only_adds[of "tables ! j" F j y "nat t" "nat t" y]
    by (auto simp: hellman_online_def only_adds_refl)
  then show "\<forall>key. (snd (hellman_online tables t y F) ! j) key = (tables ! j) key \<or>
             ((tables ! j) key = None \<and>
              (snd (hellman_online tables t y F) ! j) key = Some [] \<and>
              key \<in> set (walk_lookups F j y (nat t) (tables ! j) (nat t) y))"
    by (simp add: only_adds_def)
qed

lemma ex_lookups: "walk_lookups (ModifiedPRF ex_prf) 0 5 (nat 1) ([ex_table] ! 0) (nat 1) 5 = [5]"
  by (simp add: ex_table_def ex_prf_def dd_get_def chain_step_def py_mod_def
      ModifiedPRF_calc_def ex_map_def)

theorem hellman_online_only_adds_probed_witness:
  "length (snd (hellman_online [ex_table] 1 5 (ModifiedPRF ex_prf))) = length [ex_table] \<and>
   start_points (snd (hellman_online [ex_table] 1 5 (ModifiedPRF ex_prf)) ! 0) 7 = [3] \<and>
   ([ex_table] ! 0) 5 = None \<and>
   (snd (hellman_online [ex_table] 1 5 (ModifiedPRF ex_prf)) ! 0) 5 = Some [] \<and>
   walk_lookups (ModifiedPRF ex_prf) 0 5 (nat 1) ([ex_table] ! 0) (nat 1) 5 = [5]"
proof -
  have j: "0 < length [ex_table]" by simp
  note all = hellman_online_only_adds_probed[of "[ex_table]" 1 5 "ModifiedPRF ex_prf" 0]
  from all have len:
    "length (snd (hellman_online [ex_table] 1 5 (ModifiedPRF ex_prf))) = length [ex_table]"
    by (rule conjunct1)
  from all j have
    "start_points (snd (hellman_online [ex_table] 1 5 (ModifiedPRF ex_prf)) ! 0) 7 =
     start_points ([ex_table] ! 0) 7" by blast
  then have sp: "start_points (snd (hellman_online [ex_table] 1 5 (ModifiedPRF ex_prf)) ! 0) 7 = [3]"
    by (simp add: start_points_def ex_table_def)
  have absent: "([ex_table] ! 0) 5 = None" by (simp add: ex_table_def)
  have added: "(snd (hellman_online [ex_table] 1 5 (ModifiedPRF ex_prf)) ! 0) 5 = Some []"
    by (simp add: ex_online_missed)
  from len sp absent added ex_lookups show ?thesis by blast
qed

text \<open>
  Claim C6 as stated fails: the target \<open>5\<close> is not an end point of the table, and
  the lookup \<^verbatim>\<open>tables[0][5]\<close> of the walk makes it a key.
\<close>

theorem hellman_online_adds_keys_counterexample:
  "dom ([ex_table] ! 0) = {7} \<and>
   dom (snd (hellman_online [ex_table] 1 5 (ModifiedPRF ex_prf)) ! 0) = {5, 7}"
  by (simp add: ex_online_missed) (simp add: ex_table_def)

end
